theory Spec2Isabelle
  imports Complex_Main "HOL-Library.Char_ord" "HOL-Library.List_Lexorder" "HOL-Library.Multiset"
    "HOL-Library.AList" "HOL-Library.Sublist"
begin

section \<open>Strings\<close>

text \<open>
  A Go string is a sequence of bytes; \<^typ>\<open>string\<close> is a list of 8-bit characters and
  \<^const>\<open>length\<close> counts bytes, as Go's \<^verbatim>\<open>len\<close> does. The catalogue names handled
  here are ASCII identifiers, and the library functions are modelled on ASCII:
  \<^verbatim>\<open>strings.ToLower\<close> maps the bytes \<^verbatim>\<open>A\<close>..\<^verbatim>\<open>Z\<close> to \<^verbatim>\<open>a\<close>..\<^verbatim>\<open>z\<close> and
  \<^verbatim>\<open>strings.TrimSpace\<close> removes leading and trailing tab, newline, vertical tab,
  form feed, carriage return and space. Bytes above 127 are left alone.
\<close>

definition toLower_char :: "char \<Rightarrow> char" where
  "toLower_char c =
     (let n = (of_char c :: nat) in if 65 \<le> n \<and> n \<le> 90 then char_of (n + 32) else c)"

definition ToLower :: "string \<Rightarrow> string" where
  "ToLower s = map toLower_char s"

definition isSpace :: "char \<Rightarrow> bool" where
  "isSpace c = (let n = (of_char c :: nat) in (9 \<le> n \<and> n \<le> 13) \<or> n = 32)"

definition TrimSpace :: "string \<Rightarrow> string" where
  "TrimSpace s = rev (dropWhile isSpace (rev (dropWhile isSpace s)))"

text \<open>\<^verbatim>\<open>strings.Split(s, sep)\<close> for a one-byte separator: never an empty slice.\<close>

fun Split :: "string \<Rightarrow> char \<Rightarrow> string list" where
  "Split [] sep = [[]]"
| "Split (x # xs) sep =
     (if x = sep then [] # Split xs sep
      else (case Split xs sep of [] \<Rightarrow> [[x]] | p # ps \<Rightarrow> (x # p) # ps))"

fun Join :: "string list \<Rightarrow> string \<Rightarrow> string" where
  "Join [] sep = []"
| "Join [p] sep = p"
| "Join (p # q # ps) sep = p @ sep @ Join (q # ps) sep"

text \<open>\<^verbatim>\<open>strings.ReplaceAll(s, old, new)\<close> for a one-byte \<^verbatim>\<open>old\<close>.\<close>

definition ReplaceAll :: "string \<Rightarrow> char \<Rightarrow> string \<Rightarrow> string" where
  "ReplaceAll s old new = concat (map (\<lambda>x. if x = old then new else [x]) s)"

definition HasPrefix :: "string \<Rightarrow> string \<Rightarrow> bool" where
  "HasPrefix s p = (length p \<le> length s \<and> take (length p) s = p)"

definition HasSuffix :: "string \<Rightarrow> string \<Rightarrow> bool" where
  "HasSuffix s suf = (length suf \<le> length s \<and> drop (length s - length suf) s = suf)"

section \<open>Static tables\<close>

definition credentialSuffixes :: "string list" where
  "credentialSuffixes =
    [''personalaccesstoken'', ''personaltoken'', ''personalapikey'', ''organizationapi'',
     ''globalapikey'', ''apppassword'', ''consumerkey'', ''orgtoken'', ''bottoken'',
     ''accesstoken'', ''apitokenv2'', ''apitoken'', ''apikey'', ''api'', ''oauth2'', ''oauth'',
     ''webhook'', ''tokenv2'', ''tokenv3'', ''token'', ''cakey'', ''key'',
     ''v2'', ''v3'',
     ''cloud'', ''license'']"

text \<open>\<^verbatim>\<open>credentialWords\<close> is a \<^verbatim>\<open>map[string]bool\<close> with every listed key true; a
  lookup of an absent key gives false, so the table is the set of its keys.\<close>

definition credentialWords :: "string list" where
  "credentialWords =
    [''api'', ''key'', ''token'', ''secret'', ''password'', ''credential'', ''credentials'',
     ''access'', ''auth'', ''authentication'', ''oauth'', ''pat'', ''sso'', ''scim'',
     ''admin'', ''user'', ''client'', ''service'', ''bot'', ''app'', ''org'', ''organization'',
     ''account'', ''personal'', ''personnal'',
     ''public'', ''pub'', ''private'', ''global'', ''shared'', ''custom'', ''sensitive'',
     ''long'', ''short'', ''lived'', ''fine'', ''grained'', ''legacy'', ''workspace'',
     ''routable'', ''test'', ''batch'', ''bearer'',
     ''deploy'', ''runner'', ''cicd'', ''job'', ''trigger'', ''registration'', ''pipeline'',
     ''feed'', ''incoming'', ''session'', ''cookie'', ''kubernetes'', ''agent'', ''feature'',
     ''flag'', ''cloud'', ''upload'', ''reference'', ''identity'',
     ''signing'', ''encryption'', ''ca'', ''origin'', ''insert'', ''browser'', ''base64'',
     ''config'', ''refresh'',
     ''webhook'', ''url'', ''header'', ''page'',
     ''ptt'', ''rrt'']"

definition isCredentialWord :: "string \<Rightarrow> bool" where
  "isCredentialWord p = (p \<in> set credentialWords)"

definition glServiceOverrides :: "(string \<times> string) list" where
  "glServiceOverrides =
    [(''aws-amazon-bedrock'', ''aws''),
     (''contentful-delivery'', ''contentful''),
     (''curl'', ''curl''),
     (''hashicorp-tf'', ''hashicorp''),
     (''microsoft-teams'', ''microsoft-teams''),
     (''new-relic'', ''newrelic''),
     (''settlemint-application'', ''settlemint''),
     (''yandex-aws'', ''yandex'')]"

definition thKeywordOverrides :: "(string \<times> string) list" where
  "thKeywordOverrides =
    [(''gcpapplicationdefaultcredentials'', ''gcp''),
     (''hubspot_apikey'', ''hubspot''),
     (''adafruitio'', ''adafruit''),
     (''adobeio'', ''adobe''),
     (''flyio'', ''flyio''),
     (''frameio'', ''frameio''),
     (''privatekey'', ''privatekey''),
     (''sonarcloud'', ''sonar'')]"

definition serviceAliases :: "(string \<times> string) list" where
  "serviceAliases =
    [(''cisco-meraki'', ''meraki''),
     (''maxmind-license'', ''maxmind''),
     (''private-key'', ''privatekey'')]"

section \<open>Keyword derivation\<close>

text \<open>The scan of \<^verbatim>\<open>deriveKeywordFromGitleaksID\<close>: tokens are kept until the first
  credential word, where the loop breaks.\<close>

fun serviceParts :: "string list \<Rightarrow> string list" where
  "serviceParts [] = []"
| "serviceParts (p # ps) = (if isCredentialWord p then [] else p # serviceParts ps)"

definition deriveKeywordFromGitleaksID :: "string \<Rightarrow> string" where
  "deriveKeywordFromGitleaksID ruleID0 =
     (let ruleID = ToLower (TrimSpace ruleID0) in
      if ruleID = [] then []
      else let parts = Split ruleID (CHR ''-''); sp = serviceParts parts in
        if length sp = 0 then ruleID
        else let name = Join sp ''-'' in
          (case map_of glServiceOverrides name of Some override \<Rightarrow> override | None \<Rightarrow> name))"

text \<open>The suffix loop of \<^verbatim>\<open>deriveKeywordFromTHName\<close>: the first suffix that ends the
  name and leaves at least three bytes is stripped; a match that leaves fewer does not
  stop the loop.\<close>

fun stripSuffixes :: "string list \<Rightarrow> string \<Rightarrow> string" where
  "stripSuffixes [] dirName = dirName"
| "stripSuffixes (suf # rest) dirName =
     (if HasSuffix dirName suf then
        (let base = take (length dirName - length suf) dirName in
         if 3 \<le> length base then base else stripSuffixes rest dirName)
      else stripSuffixes rest dirName)"

definition deriveKeywordFromTHName :: "string \<Rightarrow> string" where
  "deriveKeywordFromTHName dirName0 =
     (let dirName = ToLower (TrimSpace dirName0) in
      if dirName = [] then []
      else (case map_of thKeywordOverrides dirName of
              Some override \<Rightarrow> override
            | None \<Rightarrow> stripSuffixes credentialSuffixes dirName))"

definition normalizeKeyword :: "string \<Rightarrow> string" where
  "normalizeKeyword s = ReplaceAll (ReplaceAll (ToLower s) (CHR ''-'') []) (CHR ''_'') []"

section \<open>Data model\<close>

text \<open>
  Field names carry a prefix because several Go structs share \<^verbatim>\<open>Keyword\<close>,
  \<^verbatim>\<open>Hosts\<close> and \<^verbatim>\<open>ID\<close>. A \<^verbatim>\<open>float64\<close> entropy is only copied, never computed
  with; a Go \<^verbatim>\<open>int\<close> counter counts list elements and is a natural number.
\<close>

record THDetector =
  thd_DirName :: string
  thd_Keyword :: string
  thd_Hosts :: "string list"

record GLRule =
  glr_ID :: string
  glr_Keyword :: string
  glr_Description :: string
  glr_Regex :: string
  glr_Entropy :: real
  glr_SecretGroup :: int
  glr_Keywords :: "string list"

record CombinedStats =
  TotalServices :: nat
  ServicesWithHosts :: nat
  ServicesNoHosts :: nat
  THOnlyServices :: nat
  TotalRules :: nat
  RulesWithHosts :: nat
  MatchExact :: nat
  MatchPrefix :: nat
  MatchAlias :: nat

record CombinedRule =
  cr_ID :: string
  cr_Description :: string
  cr_Regex :: string
  cr_Entropy :: real
  cr_SecretGroup :: int
  cr_Keywords :: "string list"

record CombinedSvc =
  svc_Keyword :: string
  svc_Hosts :: "string list"
  svc_MatchType :: string
  svc_MatchedTH :: "string list"
  svc_Rules :: "CombinedRule list"

record THOnlyEntry =
  tho_Keyword :: string
  tho_DirName :: string
  tho_Hosts :: "string list"

text \<open>\<^verbatim>\<open>GeneratedAt\<close> is the reading of the clock, \<^verbatim>\<open>time.Now().UTC()\<close>.\<close>

record CombinedExport =
  GeneratedAt :: nat
  Stats :: CombinedStats
  Services :: "CombinedSvc list"
  THOnlyHosts :: "THOnlyEntry list"
  GLNoHosts :: "string list"

record thEntry =
  dirName :: string
  hosts :: "string list"

record glGroup =
  keyword :: string
  rules :: "GLRule list"


section \<open>Go maps and sorting\<close>

text \<open>
  A Go map is an association list with distinct keys: \<^const>\<open>map_of\<close> is the lookup and
  \<^const>\<open>AList.update\<close> the assignment \<^verbatim>\<open>m[k] = v\<close>. The position of a key in the
  list means nothing: a \<^verbatim>\<open>range\<close> loop visits the keys in an order the runtime
  chooses afresh for every loop. That choice is the parameter \<open>visit\<close>: the \<open>n\<close>-th
  \<^verbatim>\<open>range\<close> loop of a run visits the keys \<open>ks\<close> in the order \<open>visit n ks\<close>, which
  is some rearrangement of \<open>ks\<close>.
\<close>

type_synonym ('k, 'v) gomap = "('k \<times> 'v) list"

type_synonym rangeChoice = "nat \<Rightarrow> string list \<Rightarrow> string list"

definition rangeOrder :: "rangeChoice \<Rightarrow> bool" where
  "rangeOrder visit = (\<forall>n ks. mset (visit n ks) = mset ks)"

text \<open>Two choices of orders: every loop visits the keys as the list holds them, or
  every loop visits them backwards.\<close>

definition sameOrder :: rangeChoice where
  "sameOrder n ks = ks"

definition reverseOrder :: rangeChoice where
  "reverseOrder n ks = rev ks"

text \<open>Reading a \<^verbatim>\<open>map[string]bool\<close> at an absent key gives \<^verbatim>\<open>false\<close>.\<close>

definition boolAt :: "(string, bool) gomap \<Rightarrow> string \<Rightarrow> bool" where
  "boolAt m k = (case map_of m k of Some b \<Rightarrow> b | None \<Rightarrow> False)"

text \<open>Reading a \<^verbatim>\<open>map[string][]T\<close> at an absent key gives the nil slice.\<close>

definition sliceAt :: "(string, 'a list) gomap \<Rightarrow> string \<Rightarrow> 'a list" where
  "sliceAt m k = (case map_of m k of Some xs \<Rightarrow> xs | None \<Rightarrow> [])"

text \<open>
  \<^verbatim>\<open>sort.Strings\<close> is \<^const>\<open>sort\<close> in the bytewise lexicographic order of strings.
  \<^verbatim>\<open>sort.Slice\<close> takes a \<^verbatim>\<open>less\<close> function; it is modelled by the insertion sort
  that Go runs on slices of at most twelve elements, where each element moves left past
  the elements it is less than. On longer slices Go's algorithm, which is a function of
  the slice as well, may leave elements that compare equal in another order; the
  theorems below use of the result only that it is a rearrangement of the slice.
\<close>

definition insertLess :: "('a \<Rightarrow> 'a \<Rightarrow> bool) \<Rightarrow> 'a \<Rightarrow> 'a list \<Rightarrow> 'a list" where
  "insertLess lt x ys =
     rev (dropWhile (lt x) (rev ys)) @ x # rev (takeWhile (lt x) (rev ys))"

definition sortSlice :: "('a \<Rightarrow> 'a \<Rightarrow> bool) \<Rightarrow> 'a list \<Rightarrow> 'a list" where
  "sortSlice lt xs = fold (insertLess lt) xs []"

definition sortedKeys :: "(string list \<Rightarrow> string list) \<Rightarrow> (string, bool) gomap \<Rightarrow> string list" where
  "sortedKeys order m = sort (order (map fst m))"

section \<open>Match Resolver\<close>

definition findTHMatch ::
  "(string list \<Rightarrow> string list) \<Rightarrow> string \<Rightarrow> (string, thEntry list) gomap
     \<Rightarrow> string list \<times> string" where
  "findTHMatch order glKeyword thByKeyword =
     (let glNorm = normalizeKeyword glKeyword in
      if map_of thByKeyword glNorm \<noteq> None then ([glNorm], ''exact'')
      else
        (case (case map_of serviceAliases glKeyword of
                 Some alias \<Rightarrow>
                   (let aliasNorm = normalizeKeyword alias in
                    if map_of thByKeyword aliasNorm \<noteq> None
                    then Some ([aliasNorm], ''alias'') else None)
               | None \<Rightarrow> None) of
           Some found \<Rightarrow> found
         | None \<Rightarrow>
             (if 4 \<le> length glNorm then
                (let matches = filter (\<lambda>thNorm. thNorm \<noteq> glNorm \<and> HasPrefix thNorm glNorm)
                                 (order (map fst thByKeyword)) in
                 if 0 < length matches then (sort matches, ''prefix'') else ([], []))
              else ([], []))))"

section \<open>Merger\<close>

text \<open>The first loop of \<^verbatim>\<open>combine\<close>: detectors indexed by normalized keyword.\<close>

definition indexDetector :: "THDetector \<Rightarrow> (string, thEntry list) gomap \<Rightarrow> (string, thEntry list) gomap" where
  "indexDetector d thByKeyword =
     (let norm = normalizeKeyword (thd_Keyword d) in
      AList.update norm
        (sliceAt thByKeyword norm @ [\<lparr>dirName = thd_DirName d, hosts = thd_Hosts d\<rparr>])
        thByKeyword)"

text \<open>The second loop: rules grouped by normalized keyword, the first display keyword
  kept, and the normalized keywords listed as they are first seen.\<close>

definition groupRule ::
  "GLRule \<Rightarrow> (string, glGroup) gomap \<times> string list \<Rightarrow> (string, glGroup) gomap \<times> string list" where
  "groupRule r st =
     (case st of (glGroupMap, glKeywords) \<Rightarrow>
        (let norm = normalizeKeyword (glr_Keyword r) in
         case map_of glGroupMap norm of
           Some g \<Rightarrow> (AList.update norm (g\<lparr>rules := rules g @ [r]\<rparr>) glGroupMap, glKeywords)
         | None \<Rightarrow> (AList.update norm \<lparr>keyword = glr_Keyword r, rules = [r]\<rparr> glGroupMap,
                     glKeywords @ [norm])))"

text \<open>The host collection of one group: the state is the host set, the used-directory
  map and the matched names.\<close>

type_synonym collected = "(string, bool) gomap \<times> (string, bool) gomap \<times> string list"

definition collectEntry :: "thEntry \<Rightarrow> collected \<Rightarrow> collected" where
  "collectEntry e st =
     (case st of (hostSet, thUsed, matchedNames) \<Rightarrow>
        (fold (\<lambda>h hs. AList.update h True hs) (hosts e) hostSet,
         AList.update (dirName e) True thUsed,
         matchedNames @ [dirName e]))"

definition collectMatch :: "(string, thEntry list) gomap \<Rightarrow> string \<Rightarrow> collected \<Rightarrow> collected" where
  "collectMatch thByKeyword m st =
     (case map_of thByKeyword (normalizeKeyword m) of
        Some entries \<Rightarrow> fold collectEntry entries st
      | None \<Rightarrow> st)"

definition toCombinedRule :: "GLRule \<Rightarrow> CombinedRule" where
  "toCombinedRule r =
     \<lparr>cr_ID = glr_ID r, cr_Description = glr_Description r, cr_Regex = glr_Regex r,
      cr_Entropy = glr_Entropy r, cr_SecretGroup = glr_SecretGroup r,
      cr_Keywords = glr_Keywords r\<rparr>"

text \<open>The statistics of one service, lines 150 to 165 of the Merger.\<close>

definition countService :: "nat \<Rightarrow> string list \<Rightarrow> string \<Rightarrow> CombinedStats \<Rightarrow> CombinedStats" where
  "countService nrules hs matchType stats =
     (let stats1 = stats\<lparr>TotalRules := TotalRules stats + nrules\<rparr> in
      if 0 < length hs then
        (let stats2 = stats1\<lparr>ServicesWithHosts := ServicesWithHosts stats1 + 1,
                             RulesWithHosts := RulesWithHosts stats1 + nrules\<rparr> in
         if matchType = ''exact'' then stats2\<lparr>MatchExact := MatchExact stats2 + 1\<rparr>
         else if matchType = ''prefix'' then stats2\<lparr>MatchPrefix := MatchPrefix stats2 + 1\<rparr>
         else if matchType = ''alias'' then stats2\<lparr>MatchAlias := MatchAlias stats2 + 1\<rparr>
         else stats2)
      else stats1\<lparr>ServicesNoHosts := ServicesNoHosts stats1 + 1\<rparr>)"

text \<open>The state of the main loop. \<open>ticks\<close> numbers the \<^verbatim>\<open>range\<close> loops over maps:
  each group has two, the one of the prefix tier in \<^verbatim>\<open>findTHMatch\<close> and the one in
  \<^verbatim>\<open>sortedKeys\<close>, so that each of them has a visiting order of its own.\<close>

record mergeState =
  services :: "CombinedSvc list"
  stats :: CombinedStats
  glNoHosts :: "string list"
  thUsed :: "(string, bool) gomap"
  ticks :: nat

text \<open>The body of the main loop for the group \<open>glg\<close>.\<close>

definition mergeService ::
  "rangeChoice \<Rightarrow> (string, thEntry list) gomap \<Rightarrow> glGroup \<Rightarrow> mergeState \<Rightarrow> mergeState" where
  "mergeService visit thByKeyword glg st =
     (case findTHMatch (visit (ticks st)) (keyword glg) thByKeyword of
        (matchedTH, matchType) \<Rightarrow>
          (case fold (collectMatch thByKeyword) matchedTH ([], thUsed st, []) of
             (hostSet, thUsed', matchedNames) \<Rightarrow>
               (let hs = sortedKeys (visit (ticks st + 1)) hostSet;
                    svc = \<lparr>svc_Keyword = keyword glg, svc_Hosts = hs,
                           svc_MatchType = matchType, svc_MatchedTH = sort matchedNames,
                           svc_Rules = map toCombinedRule (rules glg)\<rparr>
                in \<lparr>services = services st @ [svc],
                    stats = countService (length (rules glg)) hs matchType (stats st),
                    glNoHosts = (if 0 < length hs then glNoHosts st
                                 else glNoHosts st @ [keyword glg]),
                    thUsed = thUsed',
                    ticks = ticks st + 2\<rparr>)))"

text \<open>One iteration of the main loop. \<^verbatim>\<open>glGroupMap[normKey]\<close> is a pointer; were the
  key absent, reading \<^verbatim>\<open>glg.keyword\<close> would panic, which is the result \<open>None\<close>.\<close>

definition mergeGroup ::
  "rangeChoice \<Rightarrow> (string, thEntry list) gomap \<Rightarrow> (string, glGroup) gomap \<Rightarrow> string
     \<Rightarrow> mergeState \<Rightarrow> mergeState option" where
  "mergeGroup visit thByKeyword glGroupMap normKey st =
     (case map_of glGroupMap normKey of
        None \<Rightarrow> None
      | Some glg \<Rightarrow> Some (mergeService visit thByKeyword glg st))"

fun mergeGroups ::
  "rangeChoice \<Rightarrow> (string, thEntry list) gomap \<Rightarrow> (string, glGroup) gomap \<Rightarrow> string list
     \<Rightarrow> mergeState \<Rightarrow> mergeState option" where
  "mergeGroups visit thByKeyword glGroupMap [] st = Some st"
| "mergeGroups visit thByKeyword glGroupMap (normKey # ks) st =
     (case mergeGroup visit thByKeyword glGroupMap normKey st of
        None \<Rightarrow> None
      | Some st' \<Rightarrow> mergeGroups visit thByKeyword glGroupMap ks st')"

definition toTHOnlyEntry :: "THDetector \<Rightarrow> THOnlyEntry" where
  "toTHOnlyEntry d = \<lparr>tho_Keyword = thd_Keyword d, tho_DirName = thd_DirName d, tho_Hosts = thd_Hosts d\<rparr>"

definition zeroStats :: CombinedStats where
  "zeroStats = \<lparr>TotalServices = 0, ServicesWithHosts = 0, ServicesNoHosts = 0,
                THOnlyServices = 0, TotalRules = 0, RulesWithHosts = 0,
                MatchExact = 0, MatchPrefix = 0, MatchAlias = 0\<rparr>"

text \<open>\<^verbatim>\<open>combine\<close>, with the clock reading \<open>now\<close> and the choice of \<^verbatim>\<open>range\<close> orders
  \<open>visit\<close> as arguments.\<close>

definition combine :: "nat \<Rightarrow> rangeChoice \<Rightarrow> THDetector list \<Rightarrow> GLRule list \<Rightarrow> CombinedExport option" where
  "combine now visit thDetectors glRules =
     (let thByKeyword = fold indexDetector thDetectors [] in
      case fold groupRule glRules ([], []) of
        (glGroupMap, glKeywords) \<Rightarrow>
          (case mergeGroups visit thByKeyword glGroupMap (sort glKeywords)
                  \<lparr>services = [], stats = zeroStats, glNoHosts = [], thUsed = [], ticks = 0\<rparr> of
             None \<Rightarrow> None
           | Some st \<Rightarrow>
               (let thOnly = sortSlice (\<lambda>a b. tho_Keyword a < tho_Keyword b)
                               (map toTHOnlyEntry
                                  (filter (\<lambda>d. \<not> boolAt (thUsed st) (thd_DirName d)) thDetectors))
                in Some \<lparr>GeneratedAt = now,
                         Stats = (stats st)\<lparr>TotalServices := length (services st) + length thOnly,
                                            THOnlyServices := length thOnly\<rparr>,
                         Services = services st,
                         THOnlyHosts = thOnly,
                         GLNoHosts = sort (glNoHosts st)\<rparr>)))"

section \<open>Export Projector\<close>







section \<open>Notions used in the statements\<close>

text \<open>
  The following definitions are not in the source. They name the invariants of the
  loops, the state in which the main loop ends, the two descriptions taken from the
  specification that the code is compared with, and the inputs of the examples.
\<close>

text \<open>The invariant of the grouping loop: the keys of the group map are the listed
  keywords, without repetition, and each group sits under the normalized form of its
  display keyword.\<close>

definition groupsOK :: "(string, glGroup) gomap \<times> string list \<Rightarrow> bool" where
  "groupsOK st = (case st of (glGroupMap, glKeywords) \<Rightarrow>
     map fst glGroupMap = glKeywords \<and> distinct glKeywords \<and>
     (\<forall>(k, g) \<in> set glGroupMap. normalizeKeyword (keyword g) = k))"

text \<open>The groups in the order in which the main loop meets them, the state before its
  first iteration and after its last, and the host-only entries built from a state.\<close>

definition groupsOf :: "GLRule list \<Rightarrow> glGroup list" where
  "groupsOf gls = (case fold groupRule gls ([], []) of
     (gm, ks) \<Rightarrow> map (\<lambda>k. the (map_of gm k)) (sort ks))"

definition startState :: mergeState where
  "startState = \<lparr>services = [], stats = zeroStats, glNoHosts = [], thUsed = [], ticks = 0\<rparr>"

definition finalState :: "rangeChoice \<Rightarrow> THDetector list \<Rightarrow> GLRule list \<Rightarrow> mergeState" where
  "finalState visit ths gls =
     fold (mergeService visit (fold indexDetector ths [])) (groupsOf gls) startState"

definition thOnlyOf :: "mergeState \<Rightarrow> THDetector list \<Rightarrow> THOnlyEntry list" where
  "thOnlyOf st ths = sortSlice (\<lambda>a b. tho_Keyword a < tho_Keyword b)
     (map toTHOnlyEntry (filter (\<lambda>d. \<not> boolAt (thUsed st) (thd_DirName d)) ths))"

text \<open>The invariant of the host collection of one group: a directory is marked used
  if it was marked before or is among the matched names.\<close>

definition usedInv :: "(string, bool) gomap \<Rightarrow> collected \<Rightarrow> bool" where
  "usedInv base st = (case st of (hostSet, used, names) \<Rightarrow>
     (\<forall>d. boolAt used d \<longleftrightarrow> boolAt base d \<or> d \<in> set names))"

text \<open>The number of services with a property, and the property of having hosts and a
  given match type.\<close>

definition countIf :: "(CombinedSvc \<Rightarrow> bool) \<Rightarrow> CombinedSvc list \<Rightarrow> nat" where
  "countIf P svcs = length (filter P svcs)"

definition hasHostsAnd :: "string \<Rightarrow> CombinedSvc \<Rightarrow> bool" where
  "hasHostsAnd mt svc = (svc_Hosts svc \<noteq> [] \<and> svc_MatchType svc = mt)"

text \<open>Invariants of the main loop on the counters.\<close>

definition countersOK :: "mergeState \<Rightarrow> bool" where
  "countersOK st =
     (ServicesWithHosts (stats st) = countIf (\<lambda>s. svc_Hosts s \<noteq> []) (services st) \<and>
      ServicesNoHosts (stats st) = countIf (\<lambda>s. svc_Hosts s = []) (services st) \<and>
      MatchExact (stats st) = countIf (hasHostsAnd ''exact'') (services st) \<and>
      MatchPrefix (stats st) = countIf (hasHostsAnd ''prefix'') (services st) \<and>
      MatchAlias (stats st) = countIf (hasHostsAnd ''alias'') (services st) \<and>
      MatchExact (stats st) + MatchPrefix (stats st) + MatchAlias (stats st)
        = ServicesWithHosts (stats st))"

definition sizesOK :: "mergeState \<Rightarrow> bool" where
  "sizesOK st =
     (ServicesWithHosts (stats st) + ServicesNoHosts (stats st) = length (services st))"

text \<open>Inputs of the examples: a detector, a rule with only its identifier, keyword and
  regex set, and an index with one entry without hosts under each given keyword.\<close>

definition mkDetector :: "string \<Rightarrow> string \<Rightarrow> string list \<Rightarrow> THDetector" where
  "mkDetector d k hs = \<lparr>thd_DirName = d, thd_Keyword = k, thd_Hosts = hs\<rparr>"

definition mkRule :: "string \<Rightarrow> string \<Rightarrow> string \<Rightarrow> GLRule" where
  "mkRule i k r = \<lparr>glr_ID = i, glr_Keyword = k, glr_Description = [], glr_Regex = r,
     glr_Entropy = 0, glr_SecretGroup = 0, glr_Keywords = []\<rparr>"

definition mkIndex :: "string list \<Rightarrow> (string, thEntry list) gomap" where
  "mkIndex ks = map (\<lambda>k. (k, [\<lparr>dirName = k, hosts = []\<rparr>])) ks"

text \<open>The invariant of the main loop on the used directories, and the services that
  consume a host entity: those whose matched source names hold its directory name.\<close>

definition usedOK :: "mergeState \<Rightarrow> bool" where
  "usedOK st = (\<forall>d. boolAt (thUsed st) d \<longleftrightarrow> (\<exists>s \<in> set (services st). d \<in> set (svc_MatchedTH s)))"

definition consumedBy :: "CombinedExport \<Rightarrow> THDetector \<Rightarrow> CombinedSvc list" where
  "consumedBy out d = filter (\<lambda>s. thd_DirName d \<in> set (svc_MatchedTH s)) (Services out)"

text \<open>The Match Resolver in the words of the specification: the host keywords are the keys
  of the index; the tiers are tried in the order exact, alias, prefix and the first that
  succeeds gives the result.\<close>

definition findTHMatch_tiers :: "string \<Rightarrow> (string, thEntry list) gomap \<Rightarrow> string list \<times> string" where
  "findTHMatch_tiers glKeyword thByKeyword =
     (let glNorm = normalizeKeyword glKeyword;
          hostKeywords = fst ` set thByKeyword;
          aliased = (case map_of serviceAliases glKeyword of
                       Some alias \<Rightarrow> if normalizeKeyword alias \<in> hostKeywords
                                     then Some (normalizeKeyword alias) else None
                     | None \<Rightarrow> None);
          longer = Set.filter (\<lambda>thNorm. prefix glNorm thNorm \<and> thNorm \<noteq> glNorm) hostKeywords
      in if glNorm \<in> hostKeywords then ([glNorm], ''exact'')
         else (case aliased of
                 Some a \<Rightarrow> ([a], ''alias'')
               | None \<Rightarrow>
                   if 4 \<le> length glNorm \<and> longer \<noteq> {}
                   then (sorted_list_of_set longer, ''prefix'')
                   else ([], [])))"



section \<open>Properties of the Normalizer and the Keyword Deriver\<close>





lemma Split_nonempty: "Split s sep \<noteq> []"
  by (induction s) (simp_all split: list.splits)

lemma Join_Cons: "ps \<noteq> [] \<Longrightarrow> Join (p # ps) sep = p @ sep @ Join ps sep"
  by (cases ps) simp_all

lemma Join_Split: "Join (Split s sep) [sep] = s"
proof (induction s)
  case Nil
  then show ?case by simp
next
  case (Cons x xs)
  show ?case
  proof (cases "x = sep")
    case True
    with Cons show ?thesis
      by (simp add: Join_Cons Split_nonempty)
  next
    case False
    obtain p ps where sp: "Split xs sep = p # ps"
      using Split_nonempty[of xs sep] by (cases "Split xs sep") auto
    from Cons sp have "Join (p # ps) [sep] = xs"
      by simp
    then have "Join ((x # p) # ps) [sep] = x # xs"
      by (cases ps) simp_all
    with False sp show ?thesis
      by simp
  qed
qed

lemma Split_no_separator: "p \<in> set (Split s sep) \<Longrightarrow> sep \<notin> set p"
proof (induction s arbitrary: p)
  case Nil
  then show ?case by simp
next
  case (Cons x xs)
  show ?case
  proof (cases "x = sep")
    case True
    with Cons show ?thesis by auto
  next
    case False
    obtain q qs where sp: "Split xs sep = q # qs"
      using Split_nonempty[of xs sep] by (cases "Split xs sep") auto
    with Cons.prems False have "p = x # q \<or> p \<in> set qs"
      by simp
    with Cons.IH sp False show ?thesis
      by auto
  qed
qed

lemma ReplaceAll_empty: "ReplaceAll s old [] = filter (\<lambda>x. x \<noteq> old) s"
  by (induction s) (simp_all add: ReplaceAll_def)

lemma normalizeKeyword_filter:
  "normalizeKeyword s = filter (\<lambda>c. c \<noteq> CHR ''-'' \<and> c \<noteq> CHR ''_'') (ToLower s)"
  by (simp add: normalizeKeyword_def ReplaceAll_empty conj_commute)

lemma normalizeKeyword_Nil [simp]: "normalizeKeyword [] = []"
  by (simp add: normalizeKeyword_filter ToLower_def)





lemma serviceParts_takeWhile:
  "serviceParts ps = takeWhile (\<lambda>p. \<not> isCredentialWord p) ps"
  by (induction ps) simp_all

lemma stripSuffixes_find:
  "stripSuffixes sufs d =
     (case List.find (\<lambda>s. HasSuffix d s \<and> 3 \<le> length d - length s) sufs of
        None \<Rightarrow> d
      | Some s \<Rightarrow> take (length d - length s) d)"
  by (induction sufs) (simp_all add: Let_def)

text \<open>
  Claim C4, as amended. Let \<open>d\<close> be the host-side name lowercased and trimmed. When
  \<open>d\<close> is not a key of the override table, the result is \<open>d\<close> without the first suffix
  of the credential-suffix list, in list order, that ends \<open>d\<close> and leaves at least three
  bytes; when no suffix of the list does, the result is \<open>d\<close> itself. The named examples
  evaluate as the claim lists them.
\<close>

theorem deriveKeywordFromTHName_first_accepted_suffix:
  "(let d = ToLower (TrimSpace name) in
     map_of thKeywordOverrides d = None \<longrightarrow>
     deriveKeywordFromTHName name =
       (case List.find (\<lambda>s. HasSuffix d s \<and> 3 \<le> length d - length s) credentialSuffixes of
          None \<Rightarrow> d
        | Some s \<Rightarrow> take (length d - length s) d)) \<and>
   deriveKeywordFromTHName ''cloudflareapitoken'' = ''cloudflare'' \<and>
   deriveKeywordFromTHName ''customerio'' = ''customerio'' \<and>
   deriveKeywordFromTHName ''twilio'' = ''twilio'' \<and>
   deriveKeywordFromTHName ''podio'' = ''podio'' \<and>
   deriveKeywordFromTHName ''npm'' = ''npm'' \<and>
   deriveKeywordFromTHName ''gcp'' = ''gcp'' \<and>
   deriveKeywordFromTHName ''gcpapplicationdefaultcredentials'' = ''gcp''"
proof -
  have general: "map_of thKeywordOverrides (ToLower (TrimSpace name)) = None \<Longrightarrow>
     deriveKeywordFromTHName name =
       (case List.find (\<lambda>s. HasSuffix (ToLower (TrimSpace name)) s
             \<and> 3 \<le> length (ToLower (TrimSpace name)) - length s) credentialSuffixes of
          None \<Rightarrow> ToLower (TrimSpace name)
        | Some s \<Rightarrow> take (length (ToLower (TrimSpace name)) - length s) (ToLower (TrimSpace name)))"
  proof (cases "ToLower (TrimSpace name) = []")
    case True
    then show ?thesis
      by (simp add: deriveKeywordFromTHName_def HasSuffix_def split: option.splits)
  next
    case False
    assume "map_of thKeywordOverrides (ToLower (TrimSpace name)) = None"
    with False show ?thesis
      by (simp add: deriveKeywordFromTHName_def stripSuffixes_find Let_def)
  qed
  have e1: "deriveKeywordFromTHName ''cloudflareapitoken'' = ''cloudflare''" by code_simp
  have e2: "deriveKeywordFromTHName ''customerio'' = ''customerio''" by code_simp
  have e3: "deriveKeywordFromTHName ''twilio'' = ''twilio''" by code_simp
  have e4: "deriveKeywordFromTHName ''podio'' = ''podio''" by code_simp
  have e5: "deriveKeywordFromTHName ''npm'' = ''npm''" by code_simp
  have e6: "deriveKeywordFromTHName ''gcp'' = ''gcp''" by code_simp
  have e7: "deriveKeywordFromTHName ''gcpapplicationdefaultcredentials'' = ''gcp''" by code_simp
  show ?thesis
    unfolding Let_def using general e1 e2 e3 e4 e5 e6 e7 by blast
qed

theorem deriveKeywordFromTHName_first_accepted_suffix_witness:
  "map_of thKeywordOverrides (ToLower (TrimSpace '' NpmTokenV2 '')) = None \<and>
   deriveKeywordFromTHName '' NpmTokenV2 '' = ''npm''"
proof -
  have d: "ToLower (TrimSpace '' NpmTokenV2 '') = ''npmtokenv2''" by code_simp
  have o: "map_of thKeywordOverrides ''npmtokenv2'' = None" by code_simp
  have f: "List.find (\<lambda>s. HasSuffix ''npmtokenv2'' s \<and> 3 \<le> length ''npmtokenv2'' - length s)
             credentialSuffixes = Some ''tokenv2''" by code_simp
  from deriveKeywordFromTHName_first_accepted_suffix [of "'' NpmTokenV2 ''"] d o f
  show ?thesis by (simp add: Let_def)
qed

text \<open>
  The claim as written returns the name unchanged when nothing is stripped. The name
  \<^verbatim>\<open>NPM\<close> is not in the override table and no suffix applies, yet the result is the
  lowercased \<^verbatim>\<open>npm\<close>.
\<close>

theorem deriveKeywordFromTHName_unchanged_counterexample:
  "map_of thKeywordOverrides ''NPM'' = None \<and>
   deriveKeywordFromTHName ''NPM'' = ''npm'' \<and>
   deriveKeywordFromTHName ''NPM'' \<noteq> ''NPM''"
proof -
  have o: "map_of thKeywordOverrides ''NPM'' = None" by code_simp
  have e: "deriveKeywordFromTHName ''NPM'' = ''npm''" by code_simp
  show ?thesis by (simp add: o e)
qed

text \<open>
  Claim C5, as amended. Let \<open>r\<close> be the rule identifier lowercased and trimmed. The
  tokens of \<open>r\<close> between hyphens are kept up to the first credential word, which is
  dropped with everything after it; the kept tokens joined by hyphens, looked up in the
  override table, are the result. When no token is kept the result is \<open>r\<close> in full,
  and an empty \<open>r\<close> gives the empty string. The named examples evaluate as the claim
  lists them.
\<close>

theorem deriveKeywordFromGitleaksID_scan:
  "(let r = ToLower (TrimSpace ruleID);
        kept = takeWhile (\<lambda>p. \<not> isCredentialWord p) (Split r (CHR ''-''));
        name = Join kept ''-''
    in deriveKeywordFromGitleaksID ruleID =
         (if r = [] then []
          else if kept = [] then r
          else (case map_of glServiceOverrides name of Some override \<Rightarrow> override
                | None \<Rightarrow> name))) \<and>
   deriveKeywordFromGitleaksID ''cloudflare-api-key'' = ''cloudflare'' \<and>
   deriveKeywordFromGitleaksID ''cisco-meraki-api-key'' = ''cisco-meraki'' \<and>
   deriveKeywordFromGitleaksID ''private-key'' = ''private-key'' \<and>
   deriveKeywordFromGitleaksID '''' = '''' \<and>
   deriveKeywordFromGitleaksID ''  '' = ''''"
proof -
  have e1: "deriveKeywordFromGitleaksID ''cloudflare-api-key'' = ''cloudflare''" by code_simp
  have e2: "deriveKeywordFromGitleaksID ''cisco-meraki-api-key'' = ''cisco-meraki''" by code_simp
  have e3: "deriveKeywordFromGitleaksID ''private-key'' = ''private-key''" by code_simp
  have e4: "deriveKeywordFromGitleaksID '''' = ''''" by code_simp
  have e5: "deriveKeywordFromGitleaksID ''  '' = ''''" by code_simp
  have general: "deriveKeywordFromGitleaksID ruleID =
         (if ToLower (TrimSpace ruleID) = [] then []
          else if takeWhile (\<lambda>p. \<not> isCredentialWord p)
                    (Split (ToLower (TrimSpace ruleID)) (CHR ''-'')) = []
          then ToLower (TrimSpace ruleID)
          else (case map_of glServiceOverrides
                       (Join (takeWhile (\<lambda>p. \<not> isCredentialWord p)
                          (Split (ToLower (TrimSpace ruleID)) (CHR ''-''))) ''-'') of
                  Some override \<Rightarrow> override
                | None \<Rightarrow> Join (takeWhile (\<lambda>p. \<not> isCredentialWord p)
                          (Split (ToLower (TrimSpace ruleID)) (CHR ''-''))) ''-''))"
    by (simp add: deriveKeywordFromGitleaksID_def Let_def serviceParts_takeWhile)
  show ?thesis
    unfolding Let_def using general e1 e2 e3 e4 e5 by blast
qed

theorem deriveKeywordFromGitleaksID_scan_witness:
  "deriveKeywordFromGitleaksID '' New-Relic-User-API-Key'' = ''newrelic''"
proof -
  have r: "ToLower (TrimSpace '' New-Relic-User-API-Key'') = ''new-relic-user-api-key''"
    by code_simp
  have k: "takeWhile (\<lambda>p. \<not> isCredentialWord p) (Split ''new-relic-user-api-key'' (CHR ''-''))
             = [''new'', ''relic'']"
    by code_simp
  have j: "Join [''new'', ''relic''] ''-'' = ''new-relic''" by simp
  have ov: "map_of glServiceOverrides ''new-relic'' = Some ''newrelic''" by code_simp
  from deriveKeywordFromGitleaksID_scan [of "'' New-Relic-User-API-Key''", THEN conjunct1]
  show ?thesis
    unfolding Let_def r k j ov by simp
qed

text \<open>
  The claim as written returns the original, unmodified identifier when no service token
  survives. For \<^verbatim>\<open>PRIVATE-KEY\<close> no token survives and the result is the lowercased
  \<^verbatim>\<open>private-key\<close>.
\<close>

theorem deriveKeywordFromGitleaksID_original_counterexample:
  "deriveKeywordFromGitleaksID ''PRIVATE-KEY'' = ''private-key'' \<and>
   deriveKeywordFromGitleaksID ''PRIVATE-KEY'' \<noteq> ''PRIVATE-KEY''"
proof -
  have e: "deriveKeywordFromGitleaksID ''PRIVATE-KEY'' = ''private-key''" by code_simp
  show ?thesis by (simp add: e)
qed

section \<open>The order of range loops does not reach the output\<close>

lemma sort_mset_cong: "mset xs = mset ys \<Longrightarrow> sort xs = sort (ys :: string list)"
  by (metis sorted_list_of_multiset_mset)

lemma rangeOrder_sameOrder: "rangeOrder sameOrder"
  by (simp add: rangeOrder_def sameOrder_def)

lemma rangeOrder_reverseOrder: "rangeOrder reverseOrder"
  by (simp add: rangeOrder_def reverseOrder_def)

lemma findTHMatch_order:
  assumes "mset (order (map fst m)) = mset (map fst m)"
  shows "findTHMatch order k m = findTHMatch (\<lambda>ks. ks) k m"
proof -
  let ?P = "\<lambda>thNorm. thNorm \<noteq> normalizeKeyword k \<and> HasPrefix thNorm (normalizeKeyword k)"
  have m: "mset (filter ?P (order (map fst m))) = mset (filter ?P (map fst m))"
    using assms by (simp only: mset_filter)
  then have s: "sort (filter ?P (order (map fst m))) = sort (filter ?P (map fst m))"
    by (rule sort_mset_cong)
  from m have l: "length (filter ?P (order (map fst m))) = length (filter ?P (map fst m))"
    by (rule mset_eq_length)
  show ?thesis
    by (simp only: findTHMatch_def Let_def s l)
qed

lemma sortedKeys_order:
  assumes "mset (order (map fst m)) = mset (map fst m)"
  shows "sortedKeys order m = sortedKeys (\<lambda>ks. ks) m"
  using assms by (simp add: sortedKeys_def sort_mset_cong)

lemma mergeService_visit:
  assumes "rangeOrder visit"
  shows "mergeService visit thBy glg st = mergeService sameOrder thBy glg st"
proof -
  have f: "findTHMatch (visit n) k m = findTHMatch (sameOrder n') k m" for n n' k m
    using assms findTHMatch_order[of "visit n" m k] findTHMatch_order[of "sameOrder n'" m k]
    by (simp add: rangeOrder_def sameOrder_def)
  have k: "sortedKeys (visit n) m = sortedKeys (sameOrder n') m" for n n' m
    using assms sortedKeys_order[of "visit n" m] sortedKeys_order[of "sameOrder n'" m]
    by (simp add: rangeOrder_def sameOrder_def)
  show ?thesis
    unfolding mergeService_def
    by (simp only: f[of "ticks st" _ _ "ticks st"] k[of "ticks st + 1" _ "ticks st + 1"])
qed

lemma mergeGroups_visit:
  assumes "rangeOrder visit"
  shows "mergeGroups visit thBy gm ks st = mergeGroups sameOrder thBy gm ks st"
  by (induction ks arbitrary: st)
     (simp_all add: mergeGroup_def mergeService_visit[OF assms] split: option.splits)

lemma combine_visit:
  assumes "rangeOrder visit"
  shows "combine now visit ths gls = combine now sameOrder ths gls"
  unfolding combine_def by (simp only: mergeGroups_visit[OF assms])

section \<open>Grouping of the rules\<close>

lemma set_update_subset: "set (AList.update k v al) \<subseteq> insert (k, v) (set al)"
  by (induction al) auto

lemma groupRule_OK: "groupsOK st \<Longrightarrow> groupsOK (groupRule r st)"
proof -
  assume a: "groupsOK st"
  obtain gm ks where st: "st = (gm, ks)" by (cases st)
  from a st have k: "map fst gm = ks" and d: "distinct ks"
    and n: "\<And>k g. (k, g) \<in> set gm \<Longrightarrow> normalizeKeyword (keyword g) = k"
    by (auto simp: groupsOK_def)
  let ?norm = "normalizeKeyword (glr_Keyword r)"
  show ?thesis
  proof (cases "map_of gm ?norm")
    case None
    then have notin: "?norm \<notin> set (map fst gm)"
      by (simp add: map_of_eq_None_iff)
    have "map fst (AList.update ?norm \<lparr>keyword = glr_Keyword r, rules = [r]\<rparr> gm) = ks @ [?norm]"
      using notin k by (simp add: update_keys)
    moreover have "distinct (ks @ [?norm])"
      using notin k d by auto
    moreover have "\<forall>(k, g) \<in> set (AList.update ?norm \<lparr>keyword = glr_Keyword r, rules = [r]\<rparr> gm).
        normalizeKeyword (keyword g) = k"
      using set_update_subset[of ?norm "\<lparr>keyword = glr_Keyword r, rules = [r]\<rparr>" gm] n
      by auto
    ultimately show ?thesis
      using None st by (simp add: groupsOK_def groupRule_def Let_def)
  next
    case (Some g)
    then have isin: "?norm \<in> set (map fst gm)"
      by (metis map_of_eq_None_iff option.distinct(1) set_map)
    from Some have g: "normalizeKeyword (keyword g) = ?norm"
      using n map_of_SomeD by fastforce
    have "map fst (AList.update ?norm (g\<lparr>rules := rules g @ [r]\<rparr>) gm) = ks"
      using isin k by (simp add: update_keys)
    moreover have "\<forall>(k, g') \<in> set (AList.update ?norm (g\<lparr>rules := rules g @ [r]\<rparr>) gm).
        normalizeKeyword (keyword g') = k"
      using set_update_subset[of ?norm "g\<lparr>rules := rules g @ [r]\<rparr>" gm] n g
      by auto
    ultimately show ?thesis
      using Some st d by (simp add: groupsOK_def groupRule_def Let_def)
  qed
qed

lemma fold_groupRule_OK: "groupsOK st \<Longrightarrow> groupsOK (fold groupRule gls st)"
  by (induction gls arbitrary: st) (simp_all add: groupRule_OK)

lemma groups_initial_OK: "groupsOK (fold groupRule gls ([], []))"
  by (rule fold_groupRule_OK) (simp add: groupsOK_def)

section \<open>The main loop never panics\<close>

lemma mergeGroups_total:
  "set ks \<subseteq> fst ` set gm \<Longrightarrow>
   mergeGroups visit thBy gm ks st =
     Some (fold (\<lambda>k. mergeService visit thBy (the (map_of gm k))) ks st)"
proof (induction ks arbitrary: st)
  case Nil
  then show ?case by simp
next
  case (Cons k ks)
  from Cons.prems have "k \<in> fst ` set gm" by simp
  then obtain g where g: "map_of gm k = Some g"
    by (metis map_of_eq_None_iff not_Some_eq)
  from Cons.prems have "set ks \<subseteq> fst ` set gm" by simp
  from Cons.IH[OF this] g show ?case
    by (simp add: mergeGroup_def)
qed

lemma combine_final:
  "combine now visit ths gls =
     Some \<lparr>GeneratedAt = now,
           Stats = (stats (finalState visit ths gls))
              \<lparr>TotalServices := length (services (finalState visit ths gls))
                                  + length (thOnlyOf (finalState visit ths gls) ths),
               THOnlyServices := length (thOnlyOf (finalState visit ths gls) ths)\<rparr>,
           Services = services (finalState visit ths gls),
           THOnlyHosts = thOnlyOf (finalState visit ths gls) ths,
           GLNoHosts = sort (glNoHosts (finalState visit ths gls))\<rparr>"
proof -
  obtain gm ks where f: "fold groupRule gls ([], []) = (gm, ks)"
    by (cases "fold groupRule gls ([], [])")
  from groups_initial_OK[of gls] f have "map fst gm = ks"
    by (simp add: groupsOK_def)
  then have "set (sort ks) \<subseteq> fst ` set gm"
    by auto
  from mergeGroups_total[OF this] f show ?thesis
    by (simp add: combine_def finalState_def groupsOf_def startState_def thOnlyOf_def Let_def
          fold_map comp_def)
qed



section \<open>One iteration of the main loop\<close>

lemma sort_eq_Nil: "sort xs = [] \<longleftrightarrow> xs = ([] :: string list)"
  by (metis length_0_conv length_sort)

lemma findTHMatch_cases:
  "findTHMatch order k m = (ms, t) \<Longrightarrow>
     (ms \<noteq> [] \<and> (t = ''exact'' \<or> t = ''alias'' \<or> t = ''prefix'')) \<or> (ms = [] \<and> t = [])"
  by (auto simp: findTHMatch_def Let_def sort_eq_Nil split: if_splits option.splits)

lemma boolAt_update: "boolAt (AList.update k True m) d \<longleftrightarrow> d = k \<or> boolAt m d"
  by (simp add: boolAt_def update_conv')

lemma collectEntry_usedInv: "usedInv base st \<Longrightarrow> usedInv base (collectEntry e st)"
  by (cases st) (auto simp: usedInv_def collectEntry_def boolAt_update)

lemma fold_collectEntry_usedInv: "usedInv base st \<Longrightarrow> usedInv base (fold collectEntry es st)"
  by (induction es arbitrary: st) (simp_all add: collectEntry_usedInv)

lemma collectMatch_usedInv: "usedInv base st \<Longrightarrow> usedInv base (collectMatch thBy m st)"
  by (simp add: collectMatch_def fold_collectEntry_usedInv split: option.splits)

lemma fold_collectMatch_usedInv:
  "usedInv base st \<Longrightarrow> usedInv base (fold (collectMatch thBy) ms st)"
  by (induction ms arbitrary: st) (simp_all add: collectMatch_usedInv)

lemma collected_used:
  assumes "fold (collectMatch thBy) ms ([], base, []) = (hostSet, used, names)"
  shows "boolAt used d \<longleftrightarrow> boolAt base d \<or> d \<in> set names"
proof -
  have "usedInv base ([], base, [])"
    by (simp add: usedInv_def)
  then have "usedInv base (fold (collectMatch thBy) ms ([], base, []))"
    by (rule fold_collectMatch_usedInv)
  with assms show ?thesis
    by (simp add: usedInv_def)
qed

lemma sortedKeys_empty:
  "mset (order []) = mset ([] :: string list) \<Longrightarrow> sortedKeys order [] = []"
  by (simp add: sortedKeys_def)

lemma mergeService_shape:
  "\<exists>hostSet mt names used'.
     mergeService visit thBy g st =
       \<lparr>services = services st @
           [\<lparr>svc_Keyword = keyword g, svc_Hosts = sortedKeys (visit (ticks st + 1)) hostSet,
             svc_MatchType = mt, svc_MatchedTH = sort names,
             svc_Rules = map toCombinedRule (rules g)\<rparr>],
        stats = countService (length (rules g)) (sortedKeys (visit (ticks st + 1)) hostSet) mt
                  (stats st),
        glNoHosts = (if sortedKeys (visit (ticks st + 1)) hostSet \<noteq> [] then glNoHosts st
                     else glNoHosts st @ [keyword g]),
        thUsed = used', ticks = ticks st + 2\<rparr> \<and>
     (hostSet \<noteq> [] \<longrightarrow> mt = ''exact'' \<or> mt = ''alias'' \<or> mt = ''prefix'') \<and>
     (\<forall>d. boolAt used' d \<longleftrightarrow> boolAt (thUsed st) d \<or> d \<in> set names)"
proof -
  obtain ms mt where f: "findTHMatch (visit (ticks st)) (keyword g) thBy = (ms, mt)"
    by (cases "findTHMatch (visit (ticks st)) (keyword g) thBy")
  obtain hostSet used' names
    where c: "fold (collectMatch thBy) ms ([], thUsed st, []) = (hostSet, used', names)"
    by (cases "fold (collectMatch thBy) ms ([], thUsed st, [])")
  let ?hs = "sortedKeys (visit (ticks st + 1)) hostSet"
  have eq: "mergeService visit thBy g st =
       \<lparr>services = services st @
           [\<lparr>svc_Keyword = keyword g, svc_Hosts = ?hs, svc_MatchType = mt,
             svc_MatchedTH = sort names, svc_Rules = map toCombinedRule (rules g)\<rparr>],
        stats = countService (length (rules g)) ?hs mt (stats st),
        glNoHosts = (if ?hs \<noteq> [] then glNoHosts st else glNoHosts st @ [keyword g]),
        thUsed = used', ticks = ticks st + 2\<rparr>"
    by (simp add: mergeService_def f c Let_def)
  have ty: "mt = ''exact'' \<or> mt = ''alias'' \<or> mt = ''prefix''" if "hostSet \<noteq> []"
  proof (rule ccontr)
    assume "\<not> ?thesis"
    with findTHMatch_cases[OF f] have "ms = []" by blast
    with c have "hostSet = []" by simp
    with that show False by simp
  qed
  from eq ty collected_used[OF c] show ?thesis
    by blast
qed

lemma mergeService_step:
  assumes "rangeOrder visit"
  shows "\<exists>hs mt names used'.
     mergeService visit thBy g st =
       \<lparr>services = services st @
           [\<lparr>svc_Keyword = keyword g, svc_Hosts = hs, svc_MatchType = mt,
             svc_MatchedTH = sort names, svc_Rules = map toCombinedRule (rules g)\<rparr>],
        stats = countService (length (rules g)) hs mt (stats st),
        glNoHosts = (if hs \<noteq> [] then glNoHosts st else glNoHosts st @ [keyword g]),
        thUsed = used', ticks = ticks st + 2\<rparr> \<and>
     (hs \<noteq> [] \<longrightarrow> mt = ''exact'' \<or> mt = ''alias'' \<or> mt = ''prefix'') \<and>
     (\<forall>d. boolAt used' d \<longleftrightarrow> boolAt (thUsed st) d \<or> d \<in> set names)"
proof -
  from mergeService_shape[of visit thBy g st]
  obtain hostSet mt names used' where
    eq: "mergeService visit thBy g st =
       \<lparr>services = services st @
           [\<lparr>svc_Keyword = keyword g, svc_Hosts = sortedKeys (visit (ticks st + 1)) hostSet,
             svc_MatchType = mt, svc_MatchedTH = sort names,
             svc_Rules = map toCombinedRule (rules g)\<rparr>],
        stats = countService (length (rules g)) (sortedKeys (visit (ticks st + 1)) hostSet) mt
                  (stats st),
        glNoHosts = (if sortedKeys (visit (ticks st + 1)) hostSet \<noteq> [] then glNoHosts st
                     else glNoHosts st @ [keyword g]),
        thUsed = used', ticks = ticks st + 2\<rparr>"
    and ty: "hostSet \<noteq> [] \<longrightarrow> mt = ''exact'' \<or> mt = ''alias'' \<or> mt = ''prefix''"
    and us: "\<forall>d. boolAt used' d \<longleftrightarrow> boolAt (thUsed st) d \<or> d \<in> set names"
    by blast
  have "mset (visit (ticks st + 1) []) = mset ([] :: string list)"
    using assms by (simp add: rangeOrder_def)
  then have "sortedKeys (visit (ticks st + 1)) hostSet \<noteq> [] \<longrightarrow> hostSet \<noteq> []"
    by (auto simp: sortedKeys_empty)
  with eq ty us show ?thesis
    by blast
qed

section \<open>Counters\<close>

lemma countService_with:
  "ServicesWithHosts (countService n hs mt s) = ServicesWithHosts s + (if hs \<noteq> [] then 1 else 0)"
  by (simp add: countService_def Let_def)

lemma countService_no:
  "ServicesNoHosts (countService n hs mt s) = ServicesNoHosts s + (if hs = [] then 1 else 0)"
  by (simp add: countService_def Let_def)

lemma countService_exact:
  "MatchExact (countService n hs mt s) =
     MatchExact s + (if hs \<noteq> [] \<and> mt = ''exact'' then 1 else 0)"
  by (simp add: countService_def Let_def)

lemma countService_prefix:
  "MatchPrefix (countService n hs mt s) =
     MatchPrefix s + (if hs \<noteq> [] \<and> mt = ''prefix'' then 1 else 0)"
  by (simp add: countService_def Let_def)

lemma countService_alias:
  "MatchAlias (countService n hs mt s) =
     MatchAlias s + (if hs \<noteq> [] \<and> mt = ''alias'' then 1 else 0)"
  by (simp add: countService_def Let_def)

lemma countersOK_start: "countersOK startState"
  by (simp add: countersOK_def startState_def zeroStats_def countIf_def)

lemma mergeService_countersOK:
  assumes "rangeOrder visit" and "countersOK st"
  shows "countersOK (mergeService visit thBy g st)"
proof -
  from mergeService_step[OF assms(1), of thBy g st]
  obtain hs mt names used' where
    eq: "mergeService visit thBy g st =
       \<lparr>services = services st @
           [\<lparr>svc_Keyword = keyword g, svc_Hosts = hs, svc_MatchType = mt,
             svc_MatchedTH = sort names, svc_Rules = map toCombinedRule (rules g)\<rparr>],
        stats = countService (length (rules g)) hs mt (stats st),
        glNoHosts = (if hs \<noteq> [] then glNoHosts st else glNoHosts st @ [keyword g]),
        thUsed = used', ticks = ticks st + 2\<rparr>"
    and ty: "hs \<noteq> [] \<longrightarrow> mt = ''exact'' \<or> mt = ''alias'' \<or> mt = ''prefix''"
    by blast
  from assms(2) ty show ?thesis
    unfolding eq countersOK_def
    by (auto simp: countIf_def hasHostsAnd_def countService_with countService_no
          countService_exact countService_prefix countService_alias)
qed

lemma fold_mergeService_countersOK:
  assumes "rangeOrder visit"
  shows "countersOK st \<Longrightarrow> countersOK (fold (mergeService visit thBy) gs st)"
  by (induction gs arbitrary: st) (simp_all add: mergeService_countersOK[OF assms])

lemma finalState_countersOK: "rangeOrder visit \<Longrightarrow> countersOK (finalState visit ths gls)"
  by (simp add: finalState_def fold_mergeService_countersOK countersOK_start)

lemma mergeService_sizesOK: "sizesOK st \<Longrightarrow> sizesOK (mergeService visit thBy g st)"
proof -
  assume a: "sizesOK st"
  from mergeService_shape[of visit thBy g st]
  obtain hostSet mt names used' where
    eq: "mergeService visit thBy g st =
       \<lparr>services = services st @
           [\<lparr>svc_Keyword = keyword g, svc_Hosts = sortedKeys (visit (ticks st + 1)) hostSet,
             svc_MatchType = mt, svc_MatchedTH = sort names,
             svc_Rules = map toCombinedRule (rules g)\<rparr>],
        stats = countService (length (rules g)) (sortedKeys (visit (ticks st + 1)) hostSet) mt
                  (stats st),
        glNoHosts = (if sortedKeys (visit (ticks st + 1)) hostSet \<noteq> [] then glNoHosts st
                     else glNoHosts st @ [keyword g]),
        thUsed = used', ticks = ticks st + 2\<rparr>"
    by blast
  from a show ?thesis
    unfolding eq sizesOK_def by (simp add: countService_with countService_no)
qed

lemma fold_mergeService_sizesOK:
  "sizesOK st \<Longrightarrow> sizesOK (fold (mergeService visit thBy) gs st)"
  by (induction gs arbitrary: st) (simp_all add: mergeService_sizesOK)

lemma sizesOK_start: "sizesOK startState"
  by (simp add: sizesOK_def startState_def zeroStats_def)

lemma finalState_sizesOK: "sizesOK (finalState visit ths gls)"
  unfolding finalState_def by (rule fold_mergeService_sizesOK) (rule sizesOK_start)

text \<open>
  Claim C6. For every input of the Merger, the output has
  \<open>ServicesWithHosts + ServicesNoHosts\<close> equal to the number of services, and
  \<open>TotalServices\<close> equal to the number of services plus the number of host-only
  entries. The Merger returns for every input and every choice of range orders.
\<close>

theorem combine_stats_invariant:
  "\<exists>out. combine now visit ths gls = Some out \<and>
     ServicesWithHosts (Stats out) + ServicesNoHosts (Stats out) = length (Services out) \<and>
     TotalServices (Stats out) = length (Services out) + length (THOnlyHosts out)"
  using finalState_sizesOK[of visit ths gls]
  by (simp add: combine_final sizesOK_def)

theorem combine_stats_invariant_witness:
  "\<exists>out. combine 7 reverseOrder
       [mkDetector ''stripe'' ''stripe'' [''api.stripe.com''],
        mkDetector ''nogl'' ''nogl'' [''api.nogl.com'']]
       [mkRule ''stripe-access-token'' ''stripe'' ''sk'', mkRule ''age-secret-key'' ''age'' ''AGE'']
       = Some out \<and>
     ServicesWithHosts (Stats out) = 1 \<and> ServicesNoHosts (Stats out) = 1 \<and>
     length (Services out) = 2 \<and> length (THOnlyHosts out) = 1 \<and>
     TotalServices (Stats out) = 3"
proof -
  have e: "combine 7 reverseOrder
       [mkDetector ''stripe'' ''stripe'' [''api.stripe.com''],
        mkDetector ''nogl'' ''nogl'' [''api.nogl.com'']]
       [mkRule ''stripe-access-token'' ''stripe'' ''sk'', mkRule ''age-secret-key'' ''age'' ''AGE'']
     = Some \<lparr>GeneratedAt = 7,
         Stats = \<lparr>TotalServices = 3, ServicesWithHosts = 1, ServicesNoHosts = 1,
                   THOnlyServices = 1, TotalRules = 2, RulesWithHosts = 1,
                   MatchExact = 1, MatchPrefix = 0, MatchAlias = 0\<rparr>,
         Services =
           [\<lparr>svc_Keyword = ''age'', svc_Hosts = [], svc_MatchType = [], svc_MatchedTH = [],
              svc_Rules = [toCombinedRule (mkRule ''age-secret-key'' ''age'' ''AGE'')]\<rparr>,
            \<lparr>svc_Keyword = ''stripe'', svc_Hosts = [''api.stripe.com''],
              svc_MatchType = ''exact'', svc_MatchedTH = [''stripe''],
              svc_Rules = [toCombinedRule (mkRule ''stripe-access-token'' ''stripe'' ''sk'')]\<rparr>],
         THOnlyHosts = [toTHOnlyEntry (mkDetector ''nogl'' ''nogl'' [''api.nogl.com''])],
         GLNoHosts = [''age'']\<rparr>"
    by code_simp
  from combine_stats_invariant[of 7 reverseOrder
       "[mkDetector ''stripe'' ''stripe'' [''api.stripe.com''],
        mkDetector ''nogl'' ''nogl'' [''api.nogl.com'']]"
       "[mkRule ''stripe-access-token'' ''stripe'' ''sk'', mkRule ''age-secret-key'' ''age'' ''AGE'']"]
  show ?thesis
    unfolding e by simp
qed

text \<open>
  Claim C10. The per-match-type counters count the services with a non-empty host list
  only: each equals the number of services of its match type that have hosts, and
  their sum is \<open>ServicesWithHosts\<close>. A service without hosts is counted under
  \<open>ServicesNoHosts\<close> whatever its match type.
\<close>

theorem combine_match_counters:
  assumes "rangeOrder visit"
  shows "\<exists>out. combine now visit ths gls = Some out \<and>
     MatchExact (Stats out) + MatchPrefix (Stats out) + MatchAlias (Stats out)
       = ServicesWithHosts (Stats out) \<and>
     MatchExact (Stats out) = countIf (hasHostsAnd ''exact'') (Services out) \<and>
     MatchPrefix (Stats out) = countIf (hasHostsAnd ''prefix'') (Services out) \<and>
     MatchAlias (Stats out) = countIf (hasHostsAnd ''alias'') (Services out) \<and>
     ServicesWithHosts (Stats out) = countIf (\<lambda>s. svc_Hosts s \<noteq> []) (Services out) \<and>
     ServicesNoHosts (Stats out) = countIf (\<lambda>s. svc_Hosts s = []) (Services out)"
  using finalState_countersOK[OF assms, of ths gls]
  by (simp add: combine_final countersOK_def)

theorem combine_match_counters_witness:
  "rangeOrder reverseOrder \<and>
   (\<exists>out. combine 0 reverseOrder
        [mkDetector ''acme'' ''acme'' [], mkDetector ''stripe'' ''stripe'' [''api.stripe.com'']]
        [mkRule ''acme-api-key'' ''acme'' ''ac'', mkRule ''stripe-access-token'' ''stripe'' ''sk'']
      = Some out \<and>
      map svc_MatchType (Services out) = [''exact'', ''exact''] \<and>
      map svc_Hosts (Services out) = [[], [''api.stripe.com'']] \<and>
      MatchExact (Stats out) = 1 \<and> MatchPrefix (Stats out) = 0 \<and> MatchAlias (Stats out) = 0 \<and>
      ServicesWithHosts (Stats out) = 1 \<and> ServicesNoHosts (Stats out) = 1)"
proof -
  have e: "combine 0 reverseOrder
        [mkDetector ''acme'' ''acme'' [], mkDetector ''stripe'' ''stripe'' [''api.stripe.com'']]
        [mkRule ''acme-api-key'' ''acme'' ''ac'', mkRule ''stripe-access-token'' ''stripe'' ''sk'']
     = Some \<lparr>GeneratedAt = 0,
         Stats = \<lparr>TotalServices = 2, ServicesWithHosts = 1, ServicesNoHosts = 1,
                   THOnlyServices = 0, TotalRules = 2, RulesWithHosts = 1,
                   MatchExact = 1, MatchPrefix = 0, MatchAlias = 0\<rparr>,
         Services =
           [\<lparr>svc_Keyword = ''acme'', svc_Hosts = [], svc_MatchType = ''exact'',
              svc_MatchedTH = [''acme''],
              svc_Rules = [toCombinedRule (mkRule ''acme-api-key'' ''acme'' ''ac'')]\<rparr>,
            \<lparr>svc_Keyword = ''stripe'', svc_Hosts = [''api.stripe.com''],
              svc_MatchType = ''exact'', svc_MatchedTH = [''stripe''],
              svc_Rules = [toCombinedRule (mkRule ''stripe-access-token'' ''stripe'' ''sk'')]\<rparr>],
         THOnlyHosts = [],
         GLNoHosts = [''acme'']\<rparr>"
    by code_simp
  from combine_match_counters[OF rangeOrder_reverseOrder, of 0
        "[mkDetector ''acme'' ''acme'' [], mkDetector ''stripe'' ''stripe'' [''api.stripe.com'']]"
        "[mkRule ''acme-api-key'' ''acme'' ''ac'', mkRule ''stripe-access-token'' ''stripe'' ''sk'']"]
  show ?thesis
    unfolding e by (simp add: rangeOrder_reverseOrder)
qed

section \<open>Determinism\<close>

text \<open>
  Claim C7. Two runs of the Merger on the same lists return, and return the same list
  of services in the same order, whatever the orders in which the \<^verbatim>\<open>range\<close> loops
  of either run visit the maps and whatever the clock reads.
\<close>

theorem combine_services_deterministic:
  assumes "rangeOrder visit1" and "rangeOrder visit2"
  shows "\<exists>out1 out2. combine now1 visit1 ths gls = Some out1 \<and>
           combine now2 visit2 ths gls = Some out2 \<and> Services out1 = Services out2"
  unfolding combine_visit[OF assms(1)] combine_visit[OF assms(2)]
  by (simp add: combine_final)

theorem combine_services_deterministic_witness:
  "rangeOrder sameOrder \<and> rangeOrder reverseOrder \<and>
   (\<exists>out1 out2.
      combine 1 sameOrder
        [mkDetector ''foobarx'' ''foobarx'' [''x.foobar.com'', ''a.foobar.com''],
         mkDetector ''foobary'' ''foobary'' [''y.foobar.com'']]
        [mkRule ''foobar-api-key'' ''foobar'' ''fb'', mkRule ''age-secret-key'' ''age'' ''AGE'']
        = Some out1 \<and>
      combine 2 reverseOrder
        [mkDetector ''foobarx'' ''foobarx'' [''x.foobar.com'', ''a.foobar.com''],
         mkDetector ''foobary'' ''foobary'' [''y.foobar.com'']]
        [mkRule ''foobar-api-key'' ''foobar'' ''fb'', mkRule ''age-secret-key'' ''age'' ''AGE'']
        = Some out2 \<and>
      Services out1 = Services out2 \<and>
      map svc_Hosts (Services out1) = [[], [''a.foobar.com'', ''x.foobar.com'', ''y.foobar.com'']] \<and>
      map svc_MatchedTH (Services out1) = [[], [''foobarx'', ''foobary'']])"
proof -
  let ?svcs = "[\<lparr>svc_Keyword = ''age'', svc_Hosts = [], svc_MatchType = [], svc_MatchedTH = [],
              svc_Rules = [toCombinedRule (mkRule ''age-secret-key'' ''age'' ''AGE'')]\<rparr>,
            \<lparr>svc_Keyword = ''foobar'',
              svc_Hosts = [''a.foobar.com'', ''x.foobar.com'', ''y.foobar.com''],
              svc_MatchType = ''prefix'', svc_MatchedTH = [''foobarx'', ''foobary''],
              svc_Rules = [toCombinedRule (mkRule ''foobar-api-key'' ''foobar'' ''fb'')]\<rparr>]"
  let ?stats = "\<lparr>TotalServices = 2, ServicesWithHosts = 1, ServicesNoHosts = 1,
                   THOnlyServices = 0, TotalRules = 2, RulesWithHosts = 1,
                   MatchExact = 0, MatchPrefix = 1, MatchAlias = 0\<rparr>"
  have e1: "combine 1 sameOrder
        [mkDetector ''foobarx'' ''foobarx'' [''x.foobar.com'', ''a.foobar.com''],
         mkDetector ''foobary'' ''foobary'' [''y.foobar.com'']]
        [mkRule ''foobar-api-key'' ''foobar'' ''fb'', mkRule ''age-secret-key'' ''age'' ''AGE'']
     = Some \<lparr>GeneratedAt = 1, Stats = ?stats, Services = ?svcs, THOnlyHosts = [],
              GLNoHosts = [''age'']\<rparr>"
    by code_simp
  have e2: "combine 2 reverseOrder
        [mkDetector ''foobarx'' ''foobarx'' [''x.foobar.com'', ''a.foobar.com''],
         mkDetector ''foobary'' ''foobary'' [''y.foobar.com'']]
        [mkRule ''foobar-api-key'' ''foobar'' ''fb'', mkRule ''age-secret-key'' ''age'' ''AGE'']
     = Some \<lparr>GeneratedAt = 2, Stats = ?stats, Services = ?svcs, THOnlyHosts = [],
              GLNoHosts = [''age'']\<rparr>"
    by code_simp
  from combine_services_deterministic[OF rangeOrder_sameOrder rangeOrder_reverseOrder, of 1
        "[mkDetector ''foobarx'' ''foobarx'' [''x.foobar.com'', ''a.foobar.com''],
         mkDetector ''foobary'' ''foobary'' [''y.foobar.com'']]"
        "[mkRule ''foobar-api-key'' ''foobar'' ''fb'', mkRule ''age-secret-key'' ''age'' ''AGE'']" 2]
  show ?thesis
    unfolding e1 e2 by (simp add: rangeOrder_sameOrder rangeOrder_reverseOrder)
qed

text \<open>
  Claim C2, as amended. Two runs of the Merger on the same lists return outputs that
  agree in the statistics, the services, the host-only entries and the list of services
  without hosts, each in the same order. \<open>GeneratedAt\<close> is the clock reading of each
  run and is left out.
\<close>

theorem combine_deterministic_but_clock:
  assumes "rangeOrder visit1" and "rangeOrder visit2"
  shows "\<exists>out1 out2. combine now1 visit1 ths gls = Some out1 \<and>
           combine now2 visit2 ths gls = Some out2 \<and>
           Stats out1 = Stats out2 \<and> Services out1 = Services out2 \<and>
           THOnlyHosts out1 = THOnlyHosts out2 \<and> GLNoHosts out1 = GLNoHosts out2 \<and>
           GeneratedAt out1 = now1 \<and> GeneratedAt out2 = now2"
  unfolding combine_visit[OF assms(1)] combine_visit[OF assms(2)]
  by (simp add: combine_final)

theorem combine_deterministic_but_clock_witness:
  "rangeOrder sameOrder \<and> rangeOrder reverseOrder \<and>
   (\<exists>out1 out2.
      combine 1 sameOrder
        [mkDetector ''stripe'' ''stripe'' [''b.stripe.com'', ''a.stripe.com''],
         mkDetector ''nogl'' ''nogl'' [''api.nogl.com'']]
        [mkRule ''stripe-access-token'' ''stripe'' ''sk'']
        = Some out1 \<and>
      combine 2 reverseOrder
        [mkDetector ''stripe'' ''stripe'' [''b.stripe.com'', ''a.stripe.com''],
         mkDetector ''nogl'' ''nogl'' [''api.nogl.com'']]
        [mkRule ''stripe-access-token'' ''stripe'' ''sk'']
        = Some out2 \<and>
      Stats out1 = Stats out2 \<and> Services out1 = Services out2 \<and>
      THOnlyHosts out1 = THOnlyHosts out2 \<and> GLNoHosts out1 = GLNoHosts out2 \<and>
      GeneratedAt out1 = 1 \<and> GeneratedAt out2 = 2 \<and>
      map svc_Hosts (Services out1) = [[''a.stripe.com'', ''b.stripe.com'']] \<and>
      map tho_DirName (THOnlyHosts out1) = [''nogl''])"
proof -
  have e1: "combine 1 sameOrder
        [mkDetector ''stripe'' ''stripe'' [''b.stripe.com'', ''a.stripe.com''],
         mkDetector ''nogl'' ''nogl'' [''api.nogl.com'']]
        [mkRule ''stripe-access-token'' ''stripe'' ''sk'']
     = Some \<lparr>GeneratedAt = 1,
         Stats = \<lparr>TotalServices = 2, ServicesWithHosts = 1, ServicesNoHosts = 0,
                   THOnlyServices = 1, TotalRules = 1, RulesWithHosts = 1,
                   MatchExact = 1, MatchPrefix = 0, MatchAlias = 0\<rparr>,
         Services =
           [\<lparr>svc_Keyword = ''stripe'', svc_Hosts = [''a.stripe.com'', ''b.stripe.com''],
              svc_MatchType = ''exact'', svc_MatchedTH = [''stripe''],
              svc_Rules = [toCombinedRule (mkRule ''stripe-access-token'' ''stripe'' ''sk'')]\<rparr>],
         THOnlyHosts = [toTHOnlyEntry (mkDetector ''nogl'' ''nogl'' [''api.nogl.com''])],
         GLNoHosts = []\<rparr>"
    by code_simp
  have e2: "combine 2 reverseOrder
        [mkDetector ''stripe'' ''stripe'' [''b.stripe.com'', ''a.stripe.com''],
         mkDetector ''nogl'' ''nogl'' [''api.nogl.com'']]
        [mkRule ''stripe-access-token'' ''stripe'' ''sk'']
     = Some \<lparr>GeneratedAt = 2,
         Stats = \<lparr>TotalServices = 2, ServicesWithHosts = 1, ServicesNoHosts = 0,
                   THOnlyServices = 1, TotalRules = 1, RulesWithHosts = 1,
                   MatchExact = 1, MatchPrefix = 0, MatchAlias = 0\<rparr>,
         Services =
           [\<lparr>svc_Keyword = ''stripe'', svc_Hosts = [''a.stripe.com'', ''b.stripe.com''],
              svc_MatchType = ''exact'', svc_MatchedTH = [''stripe''],
              svc_Rules = [toCombinedRule (mkRule ''stripe-access-token'' ''stripe'' ''sk'')]\<rparr>],
         THOnlyHosts = [toTHOnlyEntry (mkDetector ''nogl'' ''nogl'' [''api.nogl.com''])],
         GLNoHosts = []\<rparr>"
    by code_simp
  have t: "tho_DirName (toTHOnlyEntry (mkDetector ''nogl'' ''nogl'' [''api.nogl.com''])) = ''nogl''"
    by (simp add: toTHOnlyEntry_def mkDetector_def)
  from combine_deterministic_but_clock[OF rangeOrder_sameOrder rangeOrder_reverseOrder, of 1
        "[mkDetector ''stripe'' ''stripe'' [''b.stripe.com'', ''a.stripe.com''],
         mkDetector ''nogl'' ''nogl'' [''api.nogl.com'']]"
        "[mkRule ''stripe-access-token'' ''stripe'' ''sk'']" 2]
  show ?thesis
    unfolding e1 e2 by (simp add: rangeOrder_sameOrder rangeOrder_reverseOrder t)
qed

text \<open>
  The claim as written makes the complete outputs of two runs identical. The output
  carries the reading of the clock, so two runs at different times differ, already on
  empty input.
\<close>

theorem combine_clock_counterexample:
  "combine 1 sameOrder [] [] \<noteq> combine 2 sameOrder [] [] \<and>
   map_option GeneratedAt (combine 1 sameOrder [] []) = Some 1 \<and>
   map_option GeneratedAt (combine 2 sameOrder [] []) = Some 2"
  by (simp add: combine_final)

section \<open>Consumed and host-only entities\<close>

lemma mergeService_usedOK: "usedOK st \<Longrightarrow> usedOK (mergeService visit thBy g st)"
proof -
  assume a: "usedOK st"
  from mergeService_shape[of visit thBy g st]
  obtain hostSet mt names used' where
    eq: "mergeService visit thBy g st =
       \<lparr>services = services st @
           [\<lparr>svc_Keyword = keyword g, svc_Hosts = sortedKeys (visit (ticks st + 1)) hostSet,
             svc_MatchType = mt, svc_MatchedTH = sort names,
             svc_Rules = map toCombinedRule (rules g)\<rparr>],
        stats = countService (length (rules g)) (sortedKeys (visit (ticks st + 1)) hostSet) mt
                  (stats st),
        glNoHosts = (if sortedKeys (visit (ticks st + 1)) hostSet \<noteq> [] then glNoHosts st
                     else glNoHosts st @ [keyword g]),
        thUsed = used', ticks = ticks st + 2\<rparr>"
    and us: "\<forall>d. boolAt used' d \<longleftrightarrow> boolAt (thUsed st) d \<or> d \<in> set names"
    by blast
  from a us show ?thesis
    unfolding eq usedOK_def by auto
qed

lemma fold_mergeService_usedOK:
  "usedOK st \<Longrightarrow> usedOK (fold (mergeService visit thBy) gs st)"
  by (induction gs arbitrary: st) (simp_all add: mergeService_usedOK)

lemma usedOK_start: "usedOK startState"
  by (simp add: usedOK_def startState_def boolAt_def)

lemma finalState_usedOK: "usedOK (finalState visit ths gls)"
  unfolding finalState_def by (rule fold_mergeService_usedOK) (rule usedOK_start)

lemma mset_insertLess: "mset (insertLess lt x ys) = add_mset x (mset ys)"
proof -
  have "mset (rev (dropWhile (lt x) (rev ys))) + mset (rev (takeWhile (lt x) (rev ys)))
          = mset (rev ys)"
    by (metis mset_append mset_rev takeWhile_dropWhile_id union_commute)
  then show ?thesis
    by (simp add: insertLess_def)
qed

lemma mset_fold_insertLess: "mset (fold (insertLess lt) xs acc) = mset xs + mset acc"
  by (induction xs arbitrary: acc) (simp_all add: mset_insertLess)

lemma mset_sortSlice: "mset (sortSlice lt xs) = mset xs"
  by (simp add: sortSlice_def mset_fold_insertLess)

lemma toTHOnlyEntry_inj: "toTHOnlyEntry d = toTHOnlyEntry d' \<longleftrightarrow> d = d'"
  by (cases d; cases d') (auto simp: toTHOnlyEntry_def)

lemma count_list_mset: "count_list xs x = count (mset xs) x"
  by (induction xs) simp_all

lemma count_thOnlyOf:
  "count_list (thOnlyOf st ths) (toTHOnlyEntry d) =
     (if boolAt (thUsed st) (thd_DirName d) then 0 else count_list ths d)"
proof -
  have "count_list (thOnlyOf st ths) (toTHOnlyEntry d) =
        count_list (map toTHOnlyEntry (filter (\<lambda>d. \<not> boolAt (thUsed st) (thd_DirName d)) ths))
          (toTHOnlyEntry d)"
    by (simp add: count_list_mset thOnlyOf_def mset_sortSlice)
  also have "\<dots> = count_list (filter (\<lambda>d. \<not> boolAt (thUsed st) (thd_DirName d)) ths) d"
    by (rule count_list_map_conv) (simp add: inj_on_def toTHOnlyEntry_inj)
  also have "\<dots> = (if boolAt (thUsed st) (thd_DirName d) then 0 else count_list ths d)"
    by (induction ths) auto
  finally show ?thesis .
qed

text \<open>
  Claim C1, as amended. A host entity is consumed by the services whose matched source
  names hold its directory name. For every input, an entity consumed by at least one
  service does not appear among the host-only entries, and an entity consumed by no
  service appears among them as often as it occurs in the input, that is once for each
  occurrence. Several services may consume the same entity.
\<close>

theorem combine_consumed_or_host_only:
  "\<exists>out. combine now visit ths gls = Some out \<and>
     (\<forall>d \<in> set ths.
        (consumedBy out d \<noteq> [] \<longrightarrow> count_list (THOnlyHosts out) (toTHOnlyEntry d) = 0) \<and>
        (consumedBy out d = [] \<longrightarrow>
           count_list (THOnlyHosts out) (toTHOnlyEntry d) = count_list ths d))"
proof -
  let ?st = "finalState visit ths gls"
  let ?out = "\<lparr>GeneratedAt = now,
           Stats = (stats ?st)
              \<lparr>TotalServices := length (services ?st) + length (thOnlyOf ?st ths),
               THOnlyServices := length (thOnlyOf ?st ths)\<rparr>,
           Services = services ?st,
           THOnlyHosts = thOnlyOf ?st ths,
           GLNoHosts = sort (glNoHosts ?st)\<rparr>"
  have c: "consumedBy ?out d = [] \<longleftrightarrow> \<not> boolAt (thUsed ?st) (thd_DirName d)" for d
    using finalState_usedOK[of visit ths gls]
    by (auto simp: consumedBy_def usedOK_def filter_empty_conv)
  have "combine now visit ths gls = Some ?out"
    by (rule combine_final)
  moreover have "\<forall>d \<in> set ths.
        (consumedBy ?out d \<noteq> [] \<longrightarrow> count_list (THOnlyHosts ?out) (toTHOnlyEntry d) = 0) \<and>
        (consumedBy ?out d = [] \<longrightarrow>
           count_list (THOnlyHosts ?out) (toTHOnlyEntry d) = count_list ths d)"
    using c by (simp add: count_thOnlyOf)
  ultimately show ?thesis
    by blast
qed

theorem combine_consumed_or_host_only_witness:
  "\<exists>out. combine 0 reverseOrder
       [mkDetector ''foobar'' ''foobar'' [''api.foobar.com''],
        mkDetector ''nogl'' ''nogl'' [''api.nogl.com'']]
       [mkRule ''foob-token'' ''foob'' ''f'', mkRule ''foobar-api-key'' ''foobar'' ''fb'']
     = Some out \<and>
     map svc_Keyword (consumedBy out (mkDetector ''foobar'' ''foobar'' [''api.foobar.com'']))
       = [''foob'', ''foobar''] \<and>
     count_list (THOnlyHosts out)
       (toTHOnlyEntry (mkDetector ''foobar'' ''foobar'' [''api.foobar.com''])) = 0 \<and>
     consumedBy out (mkDetector ''nogl'' ''nogl'' [''api.nogl.com'']) = [] \<and>
     count_list (THOnlyHosts out)
       (toTHOnlyEntry (mkDetector ''nogl'' ''nogl'' [''api.nogl.com''])) = 1"
proof -
  let ?ths = "[mkDetector ''foobar'' ''foobar'' [''api.foobar.com''],
        mkDetector ''nogl'' ''nogl'' [''api.nogl.com'']]"
  let ?gls = "[mkRule ''foob-token'' ''foob'' ''f'', mkRule ''foobar-api-key'' ''foobar'' ''fb'']"
  from combine_consumed_or_host_only[of 0 reverseOrder ?ths ?gls]
  obtain out where o: "combine 0 reverseOrder ?ths ?gls = Some out"
    and p: "\<forall>d \<in> set ?ths.
        (consumedBy out d \<noteq> [] \<longrightarrow> count_list (THOnlyHosts out) (toTHOnlyEntry d) = 0) \<and>
        (consumedBy out d = [] \<longrightarrow>
           count_list (THOnlyHosts out) (toTHOnlyEntry d) = count_list ?ths d)"
    by blast
  have s: "map_option Services (combine 0 reverseOrder ?ths ?gls) = Some
           [\<lparr>svc_Keyword = ''foob'', svc_Hosts = [''api.foobar.com''],
              svc_MatchType = ''prefix'', svc_MatchedTH = [''foobar''],
              svc_Rules = [toCombinedRule (mkRule ''foob-token'' ''foob'' ''f'')]\<rparr>,
            \<lparr>svc_Keyword = ''foobar'', svc_Hosts = [''api.foobar.com''],
              svc_MatchType = ''exact'', svc_MatchedTH = [''foobar''],
              svc_Rules = [toCombinedRule (mkRule ''foobar-api-key'' ''foobar'' ''fb'')]\<rparr>]"
    by code_simp
  from s o have sv: "Services out =
           [\<lparr>svc_Keyword = ''foob'', svc_Hosts = [''api.foobar.com''],
              svc_MatchType = ''prefix'', svc_MatchedTH = [''foobar''],
              svc_Rules = [toCombinedRule (mkRule ''foob-token'' ''foob'' ''f'')]\<rparr>,
            \<lparr>svc_Keyword = ''foobar'', svc_Hosts = [''api.foobar.com''],
              svc_MatchType = ''exact'', svc_MatchedTH = [''foobar''],
              svc_Rules = [toCombinedRule (mkRule ''foobar-api-key'' ''foobar'' ''fb'')]\<rparr>]"
    by simp
  have c1: "map svc_Keyword (consumedBy out (mkDetector ''foobar'' ''foobar'' [''api.foobar.com'']))
       = [''foob'', ''foobar'']"
    by (simp add: consumedBy_def sv mkDetector_def)
  have c2: "consumedBy out (mkDetector ''nogl'' ''nogl'' [''api.nogl.com'']) = []"
    by (simp add: consumedBy_def sv mkDetector_def)
  from c1 have c1': "consumedBy out (mkDetector ''foobar'' ''foobar'' [''api.foobar.com'']) \<noteq> []"
    by auto
  have n: "count_list ?ths (mkDetector ''nogl'' ''nogl'' [''api.nogl.com'']) = 1"
    by (simp add: mkDetector_def)
  from p c1' c2 n
  have k: "count_list (THOnlyHosts out)
       (toTHOnlyEntry (mkDetector ''foobar'' ''foobar'' [''api.foobar.com''])) = 0 \<and>
     count_list (THOnlyHosts out)
       (toTHOnlyEntry (mkDetector ''nogl'' ''nogl'' [''api.nogl.com''])) = 1"
    by simp
  show ?thesis
    by (rule exI[of _ out]) (simp only: o c1 c2 k simp_thms)
qed

text \<open>
  The claim as written lets exactly one service consume an entity. The rule keywords
  \<^verbatim>\<open>foob\<close> and \<^verbatim>\<open>foobar\<close> both reach the host keyword \<^verbatim>\<open>foobar\<close>, the first by
  prefix and the second exactly, and the one entity is in the matched source names of
  both services.
\<close>

theorem combine_consumed_twice_counterexample:
  "combine 0 sameOrder
     [mkDetector ''foobar'' ''foobar'' [''api.foobar.com'']]
     [mkRule ''foob-token'' ''foob'' ''f'', mkRule ''foobar-api-key'' ''foobar'' ''fb'']
   = Some \<lparr>GeneratedAt = 0,
         Stats = \<lparr>TotalServices = 2, ServicesWithHosts = 2, ServicesNoHosts = 0,
                   THOnlyServices = 0, TotalRules = 2, RulesWithHosts = 2,
                   MatchExact = 1, MatchPrefix = 1, MatchAlias = 0\<rparr>,
         Services =
           [\<lparr>svc_Keyword = ''foob'', svc_Hosts = [''api.foobar.com''],
              svc_MatchType = ''prefix'', svc_MatchedTH = [''foobar''],
              svc_Rules = [toCombinedRule (mkRule ''foob-token'' ''foob'' ''f'')]\<rparr>,
            \<lparr>svc_Keyword = ''foobar'', svc_Hosts = [''api.foobar.com''],
              svc_MatchType = ''exact'', svc_MatchedTH = [''foobar''],
              svc_Rules = [toCombinedRule (mkRule ''foobar-api-key'' ''foobar'' ''fb'')]\<rparr>],
         THOnlyHosts = [],
         GLNoHosts = []\<rparr>"
  by code_simp

section \<open>The three tiers of the Match Resolver\<close>

lemma HasPrefix_prefix: "HasPrefix s p \<longleftrightarrow> prefix p s"
  by (auto simp: HasPrefix_def prefix_def) (metis append_eq_conv_conj)

lemma map_of_in_keys: "map_of m k \<noteq> None \<longleftrightarrow> k \<in> fst ` set m"
  by (simp add: map_of_eq_None_iff)

lemma sort_filter_keys:
  assumes "distinct ks" and "mset (order ks) = mset ks"
  shows "sort (filter P (order ks)) = sorted_list_of_set (Set.filter P (set ks))"
proof -
  have "mset (filter P (order ks)) = mset (filter P ks)"
    using assms(2) by (simp only: mset_filter)
  then have "sort (filter P (order ks)) = sort (filter P ks)"
    by (metis sorted_list_of_multiset_mset)
  also have "\<dots> = sort (remdups (filter P ks))"
    using assms(1) by (simp add: distinct_remdups_id)
  also have "\<dots> = sorted_list_of_set (set (filter P ks))"
    by (simp only: sorted_list_of_set_sort_remdups)
  also have "set (filter P ks) = Set.filter P (set ks)"
    by auto
  finally show ?thesis .
qed

lemma filter_keys_empty:
  assumes "mset (order ks) = mset ks"
  shows "0 < length (filter P (order ks)) \<longleftrightarrow> Set.filter P (set ks) \<noteq> {}"
proof -
  have "set (order ks) = set ks"
    using assms by (rule mset_eq_setD)
  then have "set (filter P (order ks)) = Set.filter P (set ks)"
    by auto
  then show ?thesis
    by (metis length_greater_0_conv set_empty)
qed

text \<open>
  Claim C3. For every rule keyword and every index, whose keys are distinct as the
  keys of a map are, and whatever the order in which the loop over the index visits
  them: the Match Resolver returns the result of the first tier that succeeds, in the
  order exact, alias, prefix. The prefix tier needs a normalized rule keyword of at
  least four bytes and returns every host keyword that starts with it and differs from
  it, sorted. With no tier succeeding the match type is empty and so is the match list.
\<close>

theorem findTHMatch_three_tiers:
  assumes "distinct (map fst thByKeyword)"
    and "mset (order (map fst thByKeyword)) = mset (map fst thByKeyword)"
  shows "findTHMatch order glKeyword thByKeyword = findTHMatch_tiers glKeyword thByKeyword"
proof -
  let ?g = "normalizeKeyword glKeyword"
  let ?P = "\<lambda>thNorm. thNorm \<noteq> ?g \<and> HasPrefix thNorm ?g"
  let ?Q = "\<lambda>thNorm. prefix ?g thNorm \<and> thNorm \<noteq> ?g"
  have pq: "?P = ?Q"
    by (auto simp: HasPrefix_prefix)
  have s: "sort (filter ?P (order (map fst thByKeyword)))
             = sorted_list_of_set (Set.filter ?Q (fst ` set thByKeyword))"
    using sort_filter_keys[where order=order and ks="map fst thByKeyword" and P="?P", OF assms] by (simp only: pq set_map)
  have l: "0 < length (filter ?P (order (map fst thByKeyword)))
             \<longleftrightarrow> Set.filter ?Q (fst ` set thByKeyword) \<noteq> {}"
    using filter_keys_empty[where order=order and ks="map fst thByKeyword" and P="?P", OF assms(2)] by (simp only: pq set_map)
  show ?thesis
    unfolding findTHMatch_def findTHMatch_tiers_def Let_def s l map_of_in_keys
    by (auto split: option.splits)
qed

theorem findTHMatch_three_tiers_witness:
  "distinct (map fst (mkIndex [''gitlab'', ''githubapp'', ''meraki'', ''github'', ''agecrypt'']))
   \<and> mset (rev (map fst (mkIndex [''gitlab'', ''githubapp'', ''meraki'', ''github'', ''agecrypt''])))
       = mset (map fst (mkIndex [''gitlab'', ''githubapp'', ''meraki'', ''github'', ''agecrypt'']))
   \<and> findTHMatch rev ''git-hub'' (mkIndex [''gitlab'', ''githubapp'', ''meraki'', ''github'', ''agecrypt''])
       = ([''github''], ''exact'')
   \<and> findTHMatch rev ''cisco-meraki'' (mkIndex [''gitlab'', ''githubapp'', ''meraki'', ''github'', ''agecrypt''])
       = ([''meraki''], ''alias'')
   \<and> findTHMatch rev ''git'' (mkIndex [''gitlab'', ''githubapp'', ''meraki'', ''github'', ''agecrypt''])
       = ([], [])
   \<and> findTHMatch rev ''gith'' (mkIndex [''gitlab'', ''githubapp'', ''meraki'', ''github'', ''agecrypt''])
       = ([''github'', ''githubapp''], ''prefix'')"
proof -
  let ?m = "mkIndex [''gitlab'', ''githubapp'', ''meraki'', ''github'', ''agecrypt'']"
  have d: "distinct (map fst ?m)"
    by code_simp
  have p: "mset (rev (map fst ?m)) = mset (map fst ?m)"
    by simp
  have t1: "findTHMatch_tiers ''git-hub'' ?m = ([''github''], ''exact'')" by code_simp
  have t2: "findTHMatch_tiers ''cisco-meraki'' ?m = ([''meraki''], ''alias'')" by code_simp
  have t3: "findTHMatch_tiers ''git'' ?m = ([], [])" by code_simp
  have t4: "findTHMatch_tiers ''gith'' ?m = ([''github'', ''githubapp''], ''prefix'')" by code_simp
  show ?thesis
    using d p t1 t2 t3 t4
    by (simp only: findTHMatch_three_tiers[where order=rev and thByKeyword="?m", OF d p] simp_thms)
qed

section \<open>Export Projector\<close>













end
